theory Spec2Isabelle
  imports
    Main
    "HOL-Library.Char_ord"
    "HOL-Library.List_Lexorder"
    "HOL-Library.Sublist"
    "HOL-Library.Multiset"
begin

section \<open>Strings and integers of the scripts\<close>

text \<open>
  Both scripts are Python. A Python \<open>str\<close> is modelled as a \<open>string\<close>, one \<open>char\<close> per
  code point, for the code points below 256. Python compares strings by code point, which is
  the order of \<open>char\<close>; Python compares tuples lexicographically, a proper prefix being
  smaller, which is the order of lists. A tuple of integers is an \<open>int list\<close>.
\<close>

text \<open>\<open>s.lstrip('v')\<close>: every leading \<open>v\<close> is removed, not only the first.\<close>

definition lstrip :: "char \<Rightarrow> string \<Rightarrow> string" where
  "lstrip c s = dropWhile (\<lambda>x. x = c) s"

text \<open>\<open>s.rstrip('/')\<close>: every trailing \<open>/\<close> is removed.\<close>

definition rstrip :: "char \<Rightarrow> string \<Rightarrow> string" where
  "rstrip c s = rev (dropWhile (\<lambda>x. x = c) (rev s))"

text \<open>
  \<open>s.split(c)\<close> for a one-character separator: one more part than there are separators,
  so the empty string gives one empty part.
\<close>

fun split :: "char \<Rightarrow> string \<Rightarrow> string list" where
  "split c [] = [[]]"
| "split c (x # xs) =
     (if x = c then [] # split c xs
      else (case split c xs of [] \<Rightarrow> [[x]] | p # ps \<Rightarrow> (x # p) # ps))"

text \<open>\<open>sep.join(parts)\<close>.\<close>

fun join :: "string \<Rightarrow> string list \<Rightarrow> string" where
  "join sep [] = []"
| "join sep [p] = p"
| "join sep (p # q # ps) = p @ sep @ join sep (q # ps)"

text \<open>\<open>s.replace(a, b)\<close> for one-character \<open>a\<close> and \<open>b\<close>.\<close>

definition replace :: "char \<Rightarrow> char \<Rightarrow> string \<Rightarrow> string" where
  "replace a b s = map (\<lambda>x. if x = a then b else x) s"

text \<open>\<open>s.endswith(t)\<close> is \<^const>\<open>suffix\<close>; \<open>t in s\<close> on strings is a search for a contiguous
  occurrence.\<close>

definition endswith :: "string \<Rightarrow> string \<Rightarrow> bool" where
  "endswith s t = suffix t s"

fun contains :: "string \<Rightarrow> string \<Rightarrow> bool" where
  "contains t [] = (t = [])"
| "contains t (x # xs) = (prefix t (x # xs) \<or> contains t xs)"

text \<open>
  \<open>int(s)\<close> on a string, base ten. The interpreter turns every white-space character
  beyond ASCII into a blank, skips the ASCII white space at both ends, reads an optional sign
  and then digits, which single underscores may separate; anything else raises
  \<open>ValueError\<close>, here \<open>None\<close>. No code point from 128 to 255 is a decimal digit. The
  interpreter's configurable limit on the number of digits of a literal is not modelled.
\<close>

definition is_space :: "char \<Rightarrow> bool" where
  "is_space c = (of_char c \<in> {9, 10, 11, 12, 13, 32, 133, 160 :: nat})"

definition is_digit :: "char \<Rightarrow> bool" where
  "is_digit c = (CHR ''0'' \<le> c \<and> c \<le> CHR ''9'')"

definition digit_val :: "char \<Rightarrow> int" where
  "digit_val c = int (of_char c) - 48"

text \<open>The digits and underscores between the sign and the trailing white space: not empty,
  no underscore first or last, no two underscores in a row.\<close>

fun digits_ok :: "string \<Rightarrow> bool" where
  "digits_ok [] = False"
| "digits_ok [c] = is_digit c"
| "digits_ok (c # d # cs) =
     (is_digit c \<and> (if d = CHR ''_'' then digits_ok cs else digits_ok (d # cs)))"

definition digits_value :: "string \<Rightarrow> int" where
  "digits_value ds = foldl (\<lambda>acc c. 10 * acc + digit_val c) 0 (filter is_digit ds)"

definition strip_space :: "string \<Rightarrow> string" where
  "strip_space s = rev (dropWhile is_space (rev (dropWhile is_space s)))"

definition py_int :: "string \<Rightarrow> int option" where
  "py_int s =
     (case strip_space s of
        [] \<Rightarrow> None
      | c # cs \<Rightarrow>
          if c = CHR ''-'' then (if digits_ok cs then Some (- digits_value cs) else None)
          else if c = CHR ''+'' then (if digits_ok cs then Some (digits_value cs) else None)
          else if digits_ok (c # cs) then Some (digits_value (c # cs))
          else None)"

text \<open>\<open>str(n)\<close> for a natural number: its decimal digits.\<close>

definition digit_char :: "nat \<Rightarrow> char" where
  "digit_char d = char_of (48 + d)"

fun str_nat :: "nat \<Rightarrow> string" where
  "str_nat n = (if n < 10 then [digit_char n] else str_nat (n div 10) @ [digit_char (n mod 10)])"

declare str_nat.simps [simp del]

section \<open>The version registry updater\<close>

text \<open>
  \<open>parse_version\<close>: the leading \<open>v\<close>s are stripped, the rest is split at the dots, and the
  first three parts at most are read as integers. The tuple has one integer per part read,
  so between one and three. A \<open>ValueError\<close> of \<open>int\<close> is caught and gives \<open>(0, 0, 0)\<close>.
  (The \<open>AttributeError\<close> that is caught as well needs an argument that is not a string.)
\<close>

fun those_ints :: "string list \<Rightarrow> int list option" where
  "those_ints [] = Some []"
| "those_ints (p # ps) =
     (case py_int p of
        None \<Rightarrow> None
      | Some k \<Rightarrow> (case those_ints ps of None \<Rightarrow> None | Some ks \<Rightarrow> Some (k # ks)))"

definition parse_version :: "string \<Rightarrow> int list" where
  "parse_version version_string =
     (let parts = split CHR ''.'' (lstrip CHR ''v'' version_string)
      in case those_ints (take 3 parts) of
           Some t \<Rightarrow> t
         | None \<Rightarrow> [0, 0, 0])"

text \<open>The registry document \<open>versions.json\<close>, as the data model has it.\<close>

record latest_info =
  latest_path :: string
  latest_label :: string
  latest_version :: string
  updated :: "string option"

record release =
  version :: string
  path :: string
  label :: string
  releaseDate :: string

record registry =
  latest :: latest_info
  stable :: "string option"
  versions :: "release list"

definition default_registry :: registry where
  "default_registry =
     \<lparr>latest = \<lparr>latest_path = ''/latest/'', latest_label = ''Latest (Snapshot)'',
                 latest_version = ''main'', updated = None\<rparr>,
      stable = None,
      versions = []\<rparr>"

text \<open>\<open>load_versions\<close>: the document of the file when the file exists, else the default.\<close>

definition load_versions :: "registry option \<Rightarrow> registry" where
  "load_versions versions_file =
     (case versions_file of Some d \<Rightarrow> d | None \<Rightarrow> default_registry)"

text \<open>
  \<open>list.sort(key=..., reverse=True)\<close>: the list is reversed, sorted upwards by a stable
  sort, and reversed again, so that it is ordered downwards and records of equal key keep
  their order.
\<close>

definition sort_reverse :: "('a \<Rightarrow> 'k::linorder) \<Rightarrow> 'a list \<Rightarrow> 'a list" where
  "sort_reverse f xs = rev (sort_key f (rev xs))"

text \<open>The record of a release: the dictionary \<open>version_entry\<close> of the source.\<close>

definition version_entry :: "string \<Rightarrow> string \<Rightarrow> string \<Rightarrow> release" where
  "version_entry current_time vers version_label =
     \<lparr>version = vers, path = ''/'' @ vers @ ''/'', label = version_label,
      releaseDate = current_time\<rparr>"

text \<open>
  \<open>update_versions_file\<close>, from the document on disk (if any), the current time, the
  version and its label, to the document that is written back. (The argument \<open>version\<close>
  of the source is \<open>vers\<close> here, \<open>version\<close> being the field.)
\<close>

definition update_versions_file ::
  "registry option \<Rightarrow> string \<Rightarrow> string \<Rightarrow> string \<Rightarrow> registry" where
  "update_versions_file versions_file current_time vers version_label =
     (let data = load_versions versions_file
      in if vers = ''latest'' then
           data\<lparr>latest := (latest data)\<lparr>updated := Some current_time,
                                         latest_label := version_label\<rparr>\<rparr>
         else
           let kept = filter (\<lambda>v. version v \<noteq> vers) (versions data);
               appended = kept @ [version_entry current_time vers version_label];
               sorted_versions = sort_reverse (\<lambda>v. parse_version (version v)) appended
           in (case sorted_versions of
                 [] \<Rightarrow> data\<lparr>versions := sorted_versions\<rparr>
               | first # _ \<Rightarrow> data\<lparr>versions := sorted_versions,
                                     stable := Some (version first)\<rparr>))"

text \<open>The list \<open>data["versions"]\<close> after the three steps of a release: filter, append, sort.\<close>

definition release_list :: "registry \<Rightarrow> string \<Rightarrow> string \<Rightarrow> string \<Rightarrow> release list" where
  "release_list data current_time vers version_label =
     sort_reverse (\<lambda>v. parse_version (version v))
       (filter (\<lambda>v. version v \<noteq> vers) (versions data)
          @ [version_entry current_time vers version_label])"

text \<open>The invariant of the data model on \<open>stable\<close>.\<close>

definition stable_inv :: "registry \<Rightarrow> bool" where
  "stable_inv d = (stable d = (case versions d of [] \<Rightarrow> None | r # _ \<Rightarrow> Some (version r)))"

text \<open>
  The documents that runs of the updater write, starting where there is no file: the
  first run reads the default document, each later run the document of the run before.
\<close>

inductive written :: "registry \<Rightarrow> bool" where
  first_run: "written (update_versions_file None t v l)"
| later_run: "written d \<Longrightarrow> written (update_versions_file (Some d) t v l)"

section \<open>The sitemap builder\<close>

text \<open>
  A directory is the list of its entries, in the order in which the system lists them. An
  entry that is not a directory is a \<open>File\<close>: \<open>os.walk\<close> reports as files all the entries
  that are not directories. (It reports a symbolic link to a directory among the
  directories and does not descend into it; the script ignores that list, and the trees
  here have no such links.)
\<close>

datatype node = File | Dir "(string \<times> node) list"

fun is_dir :: "node \<Rightarrow> bool" where
  "is_dir File = False"
| "is_dir (Dir _) = True"

text \<open>
  \<open>os.walk\<close>, top down: a triple (root, dirs, files) for the directory, then the triples of
  each subdirectory in turn. The root is kept as the list of the directory names below the
  start directory.
\<close>

fun walk :: "string list \<Rightarrow> (string \<times> node) list \<Rightarrow> (string list \<times> string list \<times> string list) list" where
  "walk root entries =
     (root, map fst (filter (\<lambda>e. is_dir (snd e)) entries),
            map fst (filter (\<lambda>e. \<not> is_dir (snd e)) entries))
     # concat (map (\<lambda>e. case snd e of Dir sub \<Rightarrow> walk (root @ [fst e]) sub | File \<Rightarrow> []) entries)"

declare walk.simps [simp del]

text \<open>The script runs on a POSIX system: \<open>os.path.sep\<close> is the slash.\<close>

definition os_sep :: char where
  "os_sep = CHR ''/''"

text \<open>
  \<open>os.path.relpath(os.path.join(root, file), start_dir)\<close> for a root that \<open>os.walk\<close>
  gave: the names from the start directory down to the file, joined by the separator.
\<close>

definition relpath :: "string list \<Rightarrow> string \<Rightarrow> string" where
  "relpath root file = join [os_sep] (root @ [file])"

definition excluded_files :: "string list" where
  "excluded_files = [''404.html'', ''print.html'']"

text \<open>Lines 14 and 15: a slash is appended to a base URL that does not end in one.\<close>

definition normalize_base_url :: "string \<Rightarrow> string" where
  "normalize_base_url base_url =
     (if \<not> endswith base_url ''/'' then base_url @ ''/'' else base_url)"

text \<open>The test of line 24 and the URL of lines 29 to 38, for one file.\<close>

definition wanted :: "string \<Rightarrow> bool" where
  "wanted file = (endswith file ''.html'' \<and> file \<notin> set excluded_files)"

definition file_url :: "string \<Rightarrow> string list \<Rightarrow> string \<Rightarrow> string" where
  "file_url base_url root file =
     (let relative_path = relpath root file;
          url_path_parts = split CHR ''/'' (replace os_sep CHR ''/'' relative_path)
      in base_url @ join ''/'' url_path_parts)"

text \<open>The list \<open>urls\<close> after the loop over the walk; \<open>base_url\<close> is the normalized one.\<close>

definition collect_urls :: "string \<Rightarrow> (string \<times> node) list \<Rightarrow> string list" where
  "collect_urls base_url entries =
     concat (map (\<lambda>(root, dirs, files). map (file_url base_url root) (filter wanted files))
                 (walk [] entries))"

text \<open>The two lists of path fragments of lines 62 to 64 and 67 to 68.\<close>

definition key_pages :: "string list" where
  "key_pages =
     [''effect/ch_intro.html'', ''effect/effect_path_overview.html'',
      ''optics/optics_intro.html'', ''optics/focus_dsl.html'',
      ''effect/focus_integration.html'']"

definition core_pages :: "string list" where
  "core_pages =
     [''core-concepts.html'', ''usage-guide.html'', ''hkt_introduction.html'',
      ''tutorials_intro.html'', ''spring_boot_integration.html'']"

text \<open>The priority of lines 59 to 77, as the text that is written.\<close>

definition priority :: "string \<Rightarrow> string \<Rightarrow> string" where
  "priority url base_url =
     (if endswith url ''index.html'' \<or> endswith url ''home.html''
         \<or> url = rstrip CHR ''/'' base_url then ''1.0''
      else if list_ex (\<lambda>p. contains p url) key_pages then ''0.9''
      else if list_ex (\<lambda>p. contains p url) core_pages then ''0.8''
      else if contains ''/effect/'' url \<or> contains ''/optics/'' url then ''0.7''
      else if contains ''/tutorials/'' url \<or> contains ''/hkts/'' url then ''0.6''
      else ''0.5'')"

text \<open>\<open>html.escape\<close>, quotes included.\<close>

fun escape_char :: "char \<Rightarrow> string" where
  "escape_char c =
     (if c = CHR ''&'' then ''&amp;''
      else if c = CHR ''<'' then ''&lt;''
      else if c = CHR ''>'' then ''&gt;''
      else if c = CHR 0x22 then ''&quot;''
      else if c = CHR 0x27 then ''&#x27;''
      else [c])"

definition html_escape :: "string \<Rightarrow> string" where
  "html_escape s = concat (map escape_char s)"

text \<open>One \<open>url\<close> element of the document, and the document.\<close>

definition url_element :: "string \<Rightarrow> string \<Rightarrow> string \<Rightarrow> string" where
  "url_element today base_url url =
     ''  <url>'' @ [CHR 0x0A]
     @ ''    <loc>'' @ html_escape url @ ''</loc>'' @ [CHR 0x0A]
     @ ''    <lastmod>'' @ today @ ''</lastmod>'' @ [CHR 0x0A]
     @ ''    <changefreq>weekly</changefreq>'' @ [CHR 0x0A]
     @ ''    <priority>'' @ priority url base_url @ ''</priority>'' @ [CHR 0x0A]
     @ ''  </url>'' @ [CHR 0x0A]"

definition sitemap_content :: "string \<Rightarrow> string \<Rightarrow> string list \<Rightarrow> string" where
  "sitemap_content today base_url urls =
     ''<?xml version='' @ [CHR 0x22] @ ''1.0'' @ [CHR 0x22] @ '' encoding='' @ [CHR 0x22]
       @ ''UTF-8'' @ [CHR 0x22] @ ''?>'' @ [CHR 0x0A]
     @ ''<urlset xmlns='' @ [CHR 0x22] @ ''http://www.sitemaps.org/schemas/sitemap/0.9''
       @ [CHR 0x22] @ ''>'' @ [CHR 0x0A]
     @ concat (map (url_element today base_url) (sort urls))
     @ ''</urlset>'' @ [CHR 0x0A]"

text \<open>
  The file system as the script sees it: what a path names (nothing, a file or a
  directory), and the services of \<open>os\<close> that only feed the messages. Listing a directory
  and writing the file are taken to succeed. The empty path names nothing.
\<close>

record os =
  environ :: "string \<Rightarrow> string option"
  getcwd :: string
  abspath :: "string \<Rightarrow> string"
  lookup :: "string \<Rightarrow> node option"

definition node_at :: "os \<Rightarrow> string \<Rightarrow> node option" where
  "node_at sys p = (if p = [] then None else lookup sys p)"

definition isdir :: "os \<Rightarrow> string \<Rightarrow> bool" where
  "isdir sys p = (case node_at sys p of Some (Dir _) \<Rightarrow> True | _ \<Rightarrow> False)"

definition path_exists :: "os \<Rightarrow> string \<Rightarrow> bool" where
  "path_exists sys p = (node_at sys p \<noteq> None)"

definition listdir :: "os \<Rightarrow> string \<Rightarrow> string list" where
  "listdir sys p = (case node_at sys p of Some (Dir entries) \<Rightarrow> map fst entries | _ \<Rightarrow> [])"

text \<open>\<open>os.path.join\<close> of a path and a relative name.\<close>

definition path_join :: "string \<Rightarrow> string \<Rightarrow> string" where
  "path_join a b = (if a = [] \<or> endswith a ''/'' then a @ b else a @ ''/'' @ b)"

text \<open>
  \<open>os.path.dirname\<close>: the path up to its last slash, without the slashes at its end unless
  it is made of slashes only. A bare file name has the empty directory name.
\<close>

definition dirname :: "string \<Rightarrow> string" where
  "dirname p =
     (let head = rev (dropWhile (\<lambda>c. c \<noteq> CHR ''/'') (rev p))
      in if head \<noteq> [] \<and> head \<noteq> replicate (length head) CHR ''/''
         then rstrip CHR ''/'' head else head)"

text \<open>What a run leaves: the lines printed, the files written, the exit code.\<close>

record outcome =
  stdout :: "string list"
  files_written :: "(string \<times> string) list"
  exit_code :: nat

text \<open>
  \<open>generate_sitemap\<close>: the file it writes and the line it prints. \<open>os.walk\<close> of a path
  that names no directory gives no triple. The directory of the output file is created if
  it is missing, which is not recorded here; for a bare file name \<open>os.makedirs\<close> is given
  the empty path and raises, nothing catches it, and the run ends there with no file
  written and nothing printed (the exit code of an uncaught exception is 1).
\<close>

definition generate_sitemap :: "os \<Rightarrow> string \<Rightarrow> string \<Rightarrow> string \<Rightarrow> string \<Rightarrow> outcome" where
  "generate_sitemap sys today start_dir base_url output_file =
     (let base_url = normalize_base_url base_url;
          urls = (case node_at sys start_dir of
                    Some (Dir entries) \<Rightarrow> collect_urls base_url entries
                  | _ \<Rightarrow> [])
      in if dirname output_file = [] then
           \<lparr>stdout = [], files_written = [], exit_code = 1\<rparr>
         else
           \<lparr>stdout = [''Sitemap generated at '' @ output_file @ '' with ''
                        @ str_nat (length urls) @ '' URLs.''],
            files_written = [(output_file, sitemap_content today base_url urls)],
            exit_code = 0\<rparr>)"

text \<open>The script run as a program: the two settings read from the environment, then the
  check of the directory, then the sitemap.\<close>

definition book_output_directory :: "os \<Rightarrow> string" where
  "book_output_directory sys =
     (case environ sys ''MDBOOK_OUTPUT_DIR'' of Some d \<Rightarrow> d | None \<Rightarrow> ''hkj-book/book'')"

definition site_base_url :: "os \<Rightarrow> string" where
  "site_base_url sys =
     (case environ sys ''MDBOOK_SITE_URL'' of
        Some u \<Rightarrow> u | None \<Rightarrow> ''https://higher-kinded-j.github.io/'')"

definition sitemap_output_path :: "os \<Rightarrow> string" where
  "sitemap_output_path sys = path_join (book_output_directory sys) ''sitemap.xml''"

definition banner :: "os \<Rightarrow> string list" where
  "banner sys =
     [''Starting sitemap generation...'',
      ''Output directory for HTML files: '' @ abspath sys (book_output_directory sys),
      ''Site base URL: '' @ site_base_url sys,
      ''Sitemap will be saved to: '' @ abspath sys (sitemap_output_path sys)]"

definition error_line :: "os \<Rightarrow> string" where
  "error_line sys =
     ''Error: MDBOOK_OUTPUT_DIR '' @ [CHR 0x27] @ book_output_directory sys @ [CHR 0x27]
       @ '' does not exist or is not a directory.''"

definition main :: "os \<Rightarrow> string \<Rightarrow> outcome" where
  "main sys today =
     (if \<not> isdir sys (book_output_directory sys) then
        \<lparr>stdout = banner sys
           @ [error_line sys,
              ''Current PWD: '' @ getcwd sys,
              ''Listing current directory contents:'']
           @ map (\<lambda>item. ''  - '' @ item) (listdir sys ''.'')
           @ (if path_exists sys ''hkj-book'' then
                ''Listing hkj-book directory contents:''
                # map (\<lambda>item. ''  - hkj-book/'' @ item) (listdir sys ''hkj-book'')
              else []),
         files_written = [],
         exit_code = 1\<rparr>
      else
        let r = generate_sitemap sys today (book_output_directory sys) (site_base_url sys)
                  (sitemap_output_path sys)
        in r\<lparr>stdout := banner sys @ stdout r\<rparr>)"

text \<open>
  The files of a tree, each with its path from the start directory, listed directory by
  directory without reference to the walk.
\<close>

fun files_of :: "(string \<times> node) list \<Rightarrow> string list list" where
  "files_of entries =
     concat (map (\<lambda>e. case snd e of File \<Rightarrow> [[fst e]]
                                   | Dir sub \<Rightarrow> map (\<lambda>p. fst e # p) (files_of sub)) entries)"

declare files_of.simps [simp del]

text \<open>A tree as a file system has it: no name holds a slash, and the names of one
  directory differ.\<close>

fun wf_tree :: "(string \<times> node) list \<Rightarrow> bool" where
  "wf_tree entries =
     (distinct (map fst entries)
      \<and> list_all (\<lambda>e. CHR ''/'' \<notin> set (fst e)
                      \<and> (case snd e of File \<Rightarrow> True | Dir sub \<Rightarrow> wf_tree sub)) entries)"

declare wf_tree.simps [simp del]

text \<open>The URL of a file from its path: the names joined by slashes after the base URL.\<close>

definition url_of :: "string \<Rightarrow> string list \<Rightarrow> string" where
  "url_of base_url p = base_url @ join ''/'' p"

text \<open>The files that the walk reports, each with its path: the root of its triple and
  its name.\<close>

definition walked_files :: "string list \<Rightarrow> (string \<times> node) list \<Rightarrow> string list list" where
  "walked_files root entries =
     concat (map (\<lambda>(r, dirs, files). map (\<lambda>f. r @ [f]) files) (walk root entries))"

text \<open>
  Reading a sitemap document back: the text of each \<open>loc\<close> element, from the end of its
  opening tag to the next \<open><\<close>, in the order of the document.
\<close>

fun read_locs :: "string \<Rightarrow> string list" where
  "read_locs [] = []"
| "read_locs (c # cs) =
     (if prefix ''<loc>'' (c # cs)
      then takeWhile (\<lambda>x. x \<noteq> CHR ''<'') (drop 4 cs) # read_locs cs
      else read_locs cs)"

section \<open>Properties of the version registry updater\<close>

subsection \<open>The sort\<close>

lemma mset_sort_reverse: "mset (sort_reverse f xs) = mset xs"
  by (simp add: sort_reverse_def)

lemma set_sort_reverse: "set (sort_reverse f xs) = set xs"
  by (simp add: sort_reverse_def)

lemma length_sort_reverse: "length (sort_reverse f xs) = length xs"
  by (simp add: sort_reverse_def)

lemma sorted_sort_reverse: "sorted (rev (map f (sort_reverse f xs)))"
  by (simp add: sort_reverse_def rev_map)

lemma distinct_map_sort_reverse:
  "distinct (map g (sort_reverse f xs)) = distinct (map g xs)"
proof -
  have "mset (map g (sort_reverse f xs)) = mset (map g xs)"
    by (simp add: mset_sort_reverse)
  then show ?thesis by (rule mset_eq_imp_distinct_iff)
qed

subsection \<open>The two modes\<close>

lemma release_list_not_Nil: "release_list data t v l \<noteq> []"
proof
  assume "release_list data t v l = []"
  then have "length (release_list data t v l) = 0" by simp
  then show False by (simp add: release_list_def length_sort_reverse)
qed

lemma versions_release:
  assumes "v \<noteq> ''latest''"
  shows "versions (update_versions_file f t v l) = release_list (load_versions f) t v l"
  using assms
  by (simp add: update_versions_file_def release_list_def Let_def split: list.split)

lemma stable_release:
  assumes "v \<noteq> ''latest''"
  shows "stable (update_versions_file f t v l)
         = Some (version (hd (release_list (load_versions f) t v l)))"
  using assms release_list_not_Nil [of "load_versions f" t v l]
  by (simp add: update_versions_file_def release_list_def Let_def split: list.split)

lemma versions_latest:
  "versions (update_versions_file f t ''latest'' l) = versions (load_versions f)"
  by (simp add: update_versions_file_def Let_def)

lemma stable_latest:
  "stable (update_versions_file f t ''latest'' l) = stable (load_versions f)"
  by (simp add: update_versions_file_def Let_def)

subsection \<open>The stable pointer\<close>

lemma stable_inv_update:
  assumes "v \<noteq> ''latest'' \<or> stable_inv (load_versions f)"
  shows "stable_inv (update_versions_file f t v l)"
proof (cases "v = ''latest''")
  case True
  with assms show ?thesis
    by (simp add: stable_inv_def versions_latest stable_latest)
next
  case False
  obtain r rs where "release_list (load_versions f) t v l = r # rs"
    using release_list_not_Nil [of "load_versions f" t v l] by (auto simp: neq_Nil_conv)
  with False show ?thesis
    by (simp add: stable_inv_def versions_release stable_release)
qed

lemma stable_inv_default: "stable_inv (load_versions None)"
  by (simp add: stable_inv_def load_versions_def default_registry_def)

lemma written_stable_inv: "written d \<Longrightarrow> stable_inv d"
proof (induction rule: written.induct)
  case (first_run t v l)
  show ?case by (rule stable_inv_update) (simp add: stable_inv_default)
next
  case (later_run d t v l)
  show ?case by (rule stable_inv_update) (simp add: load_versions_def later_run.IH)
qed

text \<open>
  Claim C1. After a release-mode update, whatever document was read, \<open>versions\<close> is not
  empty and \<open>stable\<close> is the \<open>version\<close> of its first record. An update in either mode
  keeps the invariant (\<open>stable\<close> is the version of the first record, or null when there
  is none) of the document it read, the default document has it, and so has every
  document that runs of the updater write starting where there is no file.
\<close>

theorem stable_is_first_version:
  "(vers \<noteq> ''latest'' \<longrightarrow>
      (\<exists>r rs. versions (update_versions_file f t vers l) = r # rs
             \<and> stable (update_versions_file f t vers l) = Some (version r)))
   \<and> (stable_inv (load_versions f) \<longrightarrow> stable_inv (update_versions_file f t vers l))
   \<and> stable_inv (load_versions None)
   \<and> (written d \<longrightarrow> stable_inv d)"
proof (intro conjI impI)
  assume rel: "vers \<noteq> ''latest''"
  obtain r rs where "release_list (load_versions f) t vers l = r # rs"
    using release_list_not_Nil [of "load_versions f" t vers l] by (auto simp: neq_Nil_conv)
  with rel show "\<exists>r rs. versions (update_versions_file f t vers l) = r # rs
             \<and> stable (update_versions_file f t vers l) = Some (version r)"
    by (simp add: versions_release stable_release)
next
  assume "stable_inv (load_versions f)"
  then show "stable_inv (update_versions_file f t vers l)"
    by (simp add: stable_inv_update)
next
  show "stable_inv (load_versions None)" by (rule stable_inv_default)
next
  assume "written d"
  then show "stable_inv d" by (rule written_stable_inv)
qed

theorem stable_is_first_version_witness:
  "''v1.0.0'' \<noteq> ''latest''
   \<and> stable_inv (load_versions None)
   \<and> written (update_versions_file None ''t'' ''v1.0.0'' ''One'')
   \<and> (\<exists>r rs. versions (update_versions_file None ''t'' ''v1.0.0'' ''One'') = r # rs
          \<and> stable (update_versions_file None ''t'' ''v1.0.0'' ''One'') = Some (version r))
   \<and> stable_inv (update_versions_file None ''t'' ''v1.0.0'' ''One'')"
proof -
  have a: "''v1.0.0'' \<noteq> ''latest''" by simp
  have b: "stable_inv (load_versions None)"
    by (simp add: stable_inv_def load_versions_def default_registry_def)
  have c: "written (update_versions_file None ''t'' ''v1.0.0'' ''One'')"
    by (rule written.first_run)
  show ?thesis
    using a b c
      stable_is_first_version [of "''v1.0.0''" None "''t''" "''One''"
        "update_versions_file None ''t'' ''v1.0.0'' ''One''"]
    by blast
qed

subsection \<open>One record for each version\<close>

lemma filter_version_release_list:
  "filter (\<lambda>r. version r = v) (release_list data t v l) = [version_entry t v l]"
proof -
  define ys where "ys = filter (\<lambda>r. version r = v) (release_list data t v l)"
  have "mset ys = filter_mset (\<lambda>r. version r = v)
          (mset (filter (\<lambda>r. version r \<noteq> v) (versions data) @ [version_entry t v l]))"
    by (simp add: ys_def release_list_def mset_sort_reverse)
  also have "\<dots> = {#version_entry t v l#}"
    by (simp add: version_entry_def filter_mset_False)
  finally have "ys = [version_entry t v l]" by simp
  then show ?thesis by (simp add: ys_def)
qed

lemma distinct_release_list:
  assumes "distinct (map version (versions data))"
  shows "distinct (map version (release_list data t v l))"
proof -
  have "distinct (map version (filter (\<lambda>r. version r \<noteq> v) (versions data)))"
    using assms by (rule distinct_map_filter)
  moreover have "v \<notin> set (map version (filter (\<lambda>r. version r \<noteq> v) (versions data)))"
    by auto
  ultimately show ?thesis
    by (simp add: release_list_def distinct_map_sort_reverse version_entry_def)
qed

lemma distinct_update:
  assumes "distinct (map version (versions (load_versions f)))"
  shows "distinct (map version (versions (update_versions_file f t v l)))"
proof (cases "v = ''latest''")
  case True
  with assms show ?thesis by (simp add: versions_latest)
next
  case False
  with assms show ?thesis by (simp add: versions_release distinct_release_list)
qed

lemma written_distinct: "written d \<Longrightarrow> distinct (map version (versions d))"
proof (induction rule: written.induct)
  case (first_run t v l)
  show ?case by (rule distinct_update) (simp add: load_versions_def default_registry_def)
next
  case (later_run d t v l)
  show ?case by (rule distinct_update) (simp add: load_versions_def later_run.IH)
qed

text \<open>
  Claim C2. In release mode, whatever document was read, the records of the result with
  the version of the update are exactly one, the new record with its label; so a second
  run with the same version and another label leaves one record for it, with the second
  label. A document whose records differ in their versions, as the data model has it, is
  updated to such a document, and every document that runs of the updater write starting
  where there is no file is one.
\<close>

theorem one_record_per_version:
  assumes "vers \<noteq> ''latest''"
  shows "filter (\<lambda>r. version r = vers) (versions (update_versions_file f t vers l))
           = [version_entry t vers l]
       \<and> filter (\<lambda>r. version r = vers)
            (versions (update_versions_file (Some (update_versions_file f t vers l)) t' vers l'))
           = [version_entry t' vers l']
       \<and> (distinct (map version (versions (load_versions f))) \<longrightarrow>
            distinct (map version (versions (update_versions_file f t vers l))))
       \<and> (written d \<longrightarrow> distinct (map version (versions d)))"
proof (intro conjI impI)
  assume "distinct (map version (versions (load_versions f)))"
  then show "distinct (map version (versions (update_versions_file f t vers l)))"
    by (rule distinct_update)
next
  show "filter (\<lambda>r. version r = vers) (versions (update_versions_file f t vers l))
           = [version_entry t vers l]"
    using assms by (simp add: versions_release filter_version_release_list)
next
  show "filter (\<lambda>r. version r = vers)
            (versions (update_versions_file (Some (update_versions_file f t vers l)) t' vers l'))
           = [version_entry t' vers l']"
    using assms by (simp add: versions_release filter_version_release_list)
next
  assume "written d"
  then show "distinct (map version (versions d))" by (rule written_distinct)
qed

theorem one_record_per_version_witness:
  "''v1.0.0'' \<noteq> ''latest''
   \<and> distinct (map version (versions (load_versions None)))
   \<and> written (update_versions_file None ''t1'' ''v1.0.0'' ''One'')
   \<and> map label (filter (\<lambda>r. version r = ''v1.0.0'')
        (versions (update_versions_file (Some (update_versions_file None ''t1'' ''v1.0.0'' ''One''))
                     ''t2'' ''v1.0.0'' ''Uno'')))
       = [''Uno'']
   \<and> distinct (map version (versions (update_versions_file None ''t1'' ''v1.0.0'' ''One'')))"
proof -
  have a: "''v1.0.0'' \<noteq> ''latest''" by simp
  have b: "distinct (map version (versions (load_versions None)))"
    by (simp add: load_versions_def default_registry_def)
  have c: "written (update_versions_file None ''t1'' ''v1.0.0'' ''One'')"
    by (rule written.first_run)
  have d: "label (version_entry ''t2'' ''v1.0.0'' ''Uno'') = ''Uno''"
    by (simp add: version_entry_def)
  show ?thesis
    using a b c d
      one_record_per_version [OF a, of None "''t1''" "''One''" "''t2''" "''Uno''"
        "update_versions_file None ''t1'' ''v1.0.0'' ''One''"]
    by simp
qed

subsection \<open>The order of the records\<close>

lemma parse_version_v0_1_10: "parse_version ''v0.1.10'' = [0, 1, 10]"
  by code_simp

lemma parse_version_v0_1_9: "parse_version ''v0.1.9'' = [0, 1, 9]"
  by code_simp

lemma release_list_descending:
  "sorted (rev (map (\<lambda>r. parse_version (version r)) (release_list data t v l)))"
  unfolding release_list_def by (rule sorted_sort_reverse)

text \<open>
  Claim C5. After a release-mode update the keys of the records, read down the list,
  never go up: the list is ordered downwards by the tuple of integers that
  \<open>parse_version\<close> gives. The key of \<open>v0.1.10\<close> is above the key of \<open>v0.1.9\<close>, while as
  strings they compare the other way, so wherever both versions have a record the record
  of \<open>v0.1.10\<close> comes first.
\<close>

theorem versions_sorted_descending:
  assumes "vers \<noteq> ''latest''"
  shows "sorted (rev (map (\<lambda>r. parse_version (version r))
                          (versions (update_versions_file f t vers l))))
       \<and> (\<forall>i j. i < j \<and> j < length (versions (update_versions_file f t vers l)) \<longrightarrow>
              parse_version (version (versions (update_versions_file f t vers l) ! j))
              \<le> parse_version (version (versions (update_versions_file f t vers l) ! i)))
       \<and> (\<forall>i j. i < length (versions (update_versions_file f t vers l))
              \<and> j < length (versions (update_versions_file f t vers l))
              \<and> version (versions (update_versions_file f t vers l) ! i) = ''v0.1.10''
              \<and> version (versions (update_versions_file f t vers l) ! j) = ''v0.1.9''
              \<longrightarrow> i < j)
       \<and> parse_version ''v0.1.9'' < parse_version ''v0.1.10''
       \<and> ''v0.1.10'' < ''v0.1.9''"
proof -
  define vs where "vs = versions (update_versions_file f t vers l)"
  define ks where "ks = map (\<lambda>r. parse_version (version r)) vs"
  have vs: "vs = release_list (load_versions f) t vers l"
    using assms by (simp add: vs_def versions_release)
  have desc: "sorted (rev ks)"
    unfolding ks_def vs by (rule release_list_descending)
  have mono: "ks ! j \<le> ks ! i" if "i \<le> j" "j < length ks" for i j
    using desc that by (rule sorted_rev_nth_mono)
  have idx: "parse_version (version (vs ! j)) \<le> parse_version (version (vs ! i))"
    if "i \<le> j" "j < length vs" for i j
    using mono [of i j] that by (simp add: ks_def)
  have keys: "parse_version ''v0.1.9'' < parse_version ''v0.1.10''"
    by (simp add: parse_version_v0_1_10 parse_version_v0_1_9)
  have strs: "''v0.1.10'' < ''v0.1.9''"
    by (simp add: less_char_def)
  have before: "i < j"
    if "i < length vs" "j < length vs" "version (vs ! i) = ''v0.1.10''"
       "version (vs ! j) = ''v0.1.9''" for i j
  proof (rule ccontr)
    assume "\<not> i < j"
    then have "j \<le> i" by simp
    from idx [OF this that(1)] that(3,4)
    have "parse_version ''v0.1.10'' \<le> parse_version ''v0.1.9''" by simp
    with keys show False by simp
  qed
  show ?thesis
    unfolding vs_def [symmetric]
    using desc idx before keys strs by (auto simp: ks_def)
qed

theorem versions_sorted_descending_witness:
  "''v0.1.10'' \<noteq> ''latest''
   \<and> map version (versions (update_versions_file
        (Some (update_versions_file None ''t1'' ''v0.1.9'' ''Nine'')) ''t2'' ''v0.1.10'' ''Ten''))
       = [''v0.1.10'', ''v0.1.9'']
   \<and> (0::nat) < 1
   \<and> sorted (rev (map (\<lambda>r. parse_version (version r)) (versions (update_versions_file
        (Some (update_versions_file None ''t1'' ''v0.1.9'' ''Nine'')) ''t2'' ''v0.1.10'' ''Ten''))))"
proof -
  have a: "''v0.1.10'' \<noteq> ''latest''" by simp
  have b: "map version (versions (update_versions_file
        (Some (update_versions_file None ''t1'' ''v0.1.9'' ''Nine'')) ''t2'' ''v0.1.10'' ''Ten''))
       = [''v0.1.10'', ''v0.1.9'']"
    by code_simp
  show ?thesis
    using a b
      versions_sorted_descending [OF a,
        of "Some (update_versions_file None ''t1'' ''v0.1.9'' ''Nine'')" "''t2''" "''Ten''"]
    by simp
qed

subsection \<open>Versions that do not parse\<close>

lemma key_above_comes_first:
  assumes "vers \<noteq> ''latest''"
    and "i < length (versions (update_versions_file f t vers l))"
    and "j < length (versions (update_versions_file f t vers l))"
    and "parse_version (version (versions (update_versions_file f t vers l) ! i))
         < parse_version (version (versions (update_versions_file f t vers l) ! j))"
  shows "j < i"
proof (rule ccontr)
  define ks where
    "ks = map (\<lambda>r. parse_version (version r)) (versions (update_versions_file f t vers l))"
  assume "\<not> j < i"
  then have "i \<le> j" by simp
  moreover have "sorted (rev ks)"
    using assms(1) by (simp add: ks_def versions_release release_list_descending)
  moreover have "j < length ks" using assms(3) by (simp add: ks_def)
  ultimately have "ks ! j \<le> ks ! i" by (simp add: sorted_rev_nth_mono)
  with assms(2,3,4) show False by (simp add: ks_def)
qed

text \<open>
  Claim C4. The update never raises: \<open>parse_version\<close> and the sort are total. But a
  version that does not parse has the key \<open>(0, 0, 0)\<close>, which is the key of \<open>v0.0.0\<close>
  and above the keys of \<open>v0.0\<close> and \<open>v0\<close>. A registry whose one record is \<open>banana\<close>,
  updated with \<open>v0.0.0\<close>, keeps \<open>banana\<close> first and \<open>stable\<close>; a registry whose one
  record is \<open>v0.0\<close>, updated with \<open>banana\<close>, puts \<open>banana\<close> first and makes it \<open>stable\<close>.
\<close>

theorem unparseable_before_valid:
  "parse_version ''banana'' = [0, 0, 0]
   \<and> parse_version ''v0.0.0'' = [0, 0, 0]
   \<and> parse_version ''v0.0'' = [0, 0]
   \<and> map version (versions (update_versions_file
        (Some (default_registry\<lparr>stable := Some ''banana'',
                 versions := [version_entry ''t0'' ''banana'' ''Banana'']\<rparr>))
        ''t1'' ''v0.0.0'' ''Zero''))
       = [''banana'', ''v0.0.0'']
   \<and> stable (update_versions_file
        (Some (default_registry\<lparr>stable := Some ''banana'',
                 versions := [version_entry ''t0'' ''banana'' ''Banana'']\<rparr>))
        ''t1'' ''v0.0.0'' ''Zero'') = Some ''banana''
   \<and> map version (versions (update_versions_file
        (Some (default_registry\<lparr>stable := Some ''v0.0'',
                 versions := [version_entry ''t0'' ''v0.0'' ''Zero'']\<rparr>))
        ''t1'' ''banana'' ''Banana''))
       = [''banana'', ''v0.0'']
   \<and> stable (update_versions_file
        (Some (default_registry\<lparr>stable := Some ''v0.0'',
                 versions := [version_entry ''t0'' ''v0.0'' ''Zero'']\<rparr>))
        ''t1'' ''banana'' ''Banana'') = Some ''banana''"
  by code_simp

subsection \<open>Reading a version\<close>

lemma split_not_Nil: "split c s \<noteq> []"
  by (induction s) (auto split: list.split)

lemma split_no_sep: "c \<notin> set s \<Longrightarrow> split c s = [s]"
  by (induction s) auto

lemma split_append_sep: "c \<notin> set s \<Longrightarrow> split c (s @ c # r) = s # split c r"
  by (induction s) auto

lemma those_ints_None: "those_ints ps = None \<longleftrightarrow> (\<exists>p \<in> set ps. py_int p = None)"
  by (induction ps) (auto split: option.split)

lemma those_ints_Some:
  "those_ints ps = Some ks \<Longrightarrow> map py_int ps = map Some ks"
  by (induction ps arbitrary: ks) (auto split: option.splits)

lemma is_digit_digit_char: "d < 10 \<Longrightarrow> is_digit (digit_char d)"
  by (simp add: is_digit_def digit_char_def less_eq_char_def)

lemma digit_val_digit_char: "d < 10 \<Longrightarrow> digit_val (digit_char d) = int d"
  by (simp add: digit_val_def digit_char_def)

lemma str_nat_digits: "c \<in> set (str_nat n) \<Longrightarrow> is_digit c"
proof (induction n rule: str_nat.induct)
  case (1 n)
  show ?case
  proof (cases "n < 10")
    case True
    with "1.prems" show ?thesis
      by (simp add: str_nat.simps [of n] is_digit_digit_char)
  next
    case False
    with "1.prems" "1.IH" show ?thesis
      by (auto simp: str_nat.simps [of n] is_digit_digit_char)
  qed
qed

lemma str_nat_not_Nil: "str_nat n \<noteq> []"
  by (simp add: str_nat.simps [of n])

lemma digits_ok_digits: "ds \<noteq> [] \<Longrightarrow> \<forall>c \<in> set ds. is_digit c \<Longrightarrow> digits_ok ds"
proof (induction ds rule: digits_ok.induct)
  case (3 c d cs)
  then have "d \<noteq> CHR ''_''" by (auto simp: is_digit_def less_eq_char_def)
  with 3 show ?case by simp
qed simp_all

lemma foldl_digits_snoc:
  "foldl (\<lambda>acc c. 10 * acc + digit_val c) 0 (ds @ [c])
   = 10 * foldl (\<lambda>acc c. 10 * acc + digit_val c) 0 ds + digit_val c"
  by simp

lemma digits_value_str_nat: "digits_value (str_nat n) = int n"
proof (induction n rule: str_nat.induct)
  case (1 n)
  show ?case
  proof (cases "n < 10")
    case True
    then show ?thesis
      by (simp add: str_nat.simps [of n] digits_value_def is_digit_digit_char
          digit_val_digit_char)
  next
    case False
    have all: "filter is_digit (str_nat (n div 10)) = str_nat (n div 10)"
      by (simp add: str_nat_digits)
    have "digits_value (str_nat n)
          = 10 * digits_value (str_nat (n div 10)) + int (n mod 10)"
      using False
      by (simp add: str_nat.simps [of n] digits_value_def is_digit_digit_char
          digit_val_digit_char)
    also have "\<dots> = 10 * int (n div 10) + int (n mod 10)"
      using False "1.IH" by simp
    also have "\<dots> = int n"
      by (simp add: zdiv_int zmod_int)
    finally show ?thesis .
  qed
qed

lemma digit_not_space: "is_digit c \<Longrightarrow> \<not> is_space c"
  by (auto simp: is_digit_def is_space_def less_eq_char_def)

lemma strip_space_digits:
  assumes "\<forall>c \<in> set ds. is_digit c"
  shows "strip_space ds = ds"
proof -
  have a: "dropWhile is_space xs = xs" if "\<forall>c \<in> set xs. is_digit c" for xs
    using that by (cases xs) (auto simp: digit_not_space)
  have "dropWhile is_space (rev ds) = rev ds"
    by (rule a) (use assms in simp)
  with a [OF assms] show ?thesis by (simp add: strip_space_def)
qed

lemma py_int_str_nat: "py_int (str_nat n) = Some (int n)"
proof -
  obtain c cs where ccs: "str_nat n = c # cs"
    using str_nat_not_Nil [of n] by (cases "str_nat n") auto
  have dig: "\<forall>x \<in> set (str_nat n). is_digit x"
    by (simp add: str_nat_digits)
  then have "is_digit c" by (simp add: ccs)
  then have sign: "c \<noteq> CHR ''-''" "c \<noteq> CHR ''+''"
    by (auto simp: is_digit_def less_eq_char_def)
  have ok: "digits_ok (c # cs)"
    using digits_ok_digits [of "str_nat n"] dig str_nat_not_Nil [of n] by (simp add: ccs)
  have val: "digits_value (c # cs) = int n"
    using digits_value_str_nat [of n] by (simp add: ccs)
  have "strip_space (c # cs) = c # cs"
    using strip_space_digits [OF dig] by (simp add: ccs)
  with sign ok val have "py_int (c # cs) = Some (int n)"
    by (simp add: py_int_def)
  then show ?thesis by (simp add: ccs)
qed

lemma str_nat_no_char:
  assumes "\<not> is_digit c"
  shows "c \<notin> set (str_nat n)"
  using assms str_nat_digits by blast

lemma parse_version_canonical:
  "parse_version (''v'' @ str_nat a @ ''.'' @ str_nat b @ ''.'' @ str_nat c)
   = [int a, int b, int c]"
proof -
  have nodot: "CHR ''.'' \<notin> set (str_nat n)" for n
    by (rule str_nat_no_char) (simp add: is_digit_def less_eq_char_def)
  obtain x xs where xxs: "str_nat a = x # xs"
    using str_nat_not_Nil [of a] by (cases "str_nat a") auto
  have "is_digit x" using str_nat_digits [of x a] by (simp add: xxs)
  then have "x \<noteq> CHR ''v''" by (auto simp: is_digit_def less_eq_char_def)
  then have strip: "lstrip CHR ''v'' (''v'' @ str_nat a @ ''.'' @ str_nat b @ ''.'' @ str_nat c)
                    = str_nat a @ CHR ''.'' # str_nat b @ CHR ''.'' # str_nat c"
    by (simp add: lstrip_def xxs)
  have parts: "split CHR ''.'' (str_nat a @ CHR ''.'' # str_nat b @ CHR ''.'' # str_nat c)
               = [str_nat a, str_nat b, str_nat c]"
    by (simp add: split_append_sep split_no_sep nodot)
  have "parse_version (''v'' @ str_nat a @ ''.'' @ str_nat b @ ''.'' @ str_nat c)
        = (case those_ints (take 3 [str_nat a, str_nat b, str_nat c]) of
             Some t \<Rightarrow> t | None \<Rightarrow> [0, 0, 0])"
    by (simp only: parse_version_def strip parts Let_def)
  then show ?thesis
    by (simp add: py_int_str_nat)
qed

text \<open>
  Claim C3, as the code has it. The leading \<open>v\<close>s are stripped, the rest is split at the
  dots into at least one part, and the first three parts at most are read as integers.
  When each of them reads as an integer, the tuple has one integer for each, in order:
  three only when there are three parts or more, fewer otherwise. When one of them does
  not read as an integer, the tuple is \<open>(0, 0, 0)\<close>; the empty string is such a case.
  The tuple has between one and three integers and nothing is raised. A \<open>v\<close> followed by
  three decimal numbers with dots between them gives these three numbers.
\<close>

theorem parse_version_tuple:
  "1 \<le> length (split CHR ''.'' (lstrip CHR ''v'' s))
   \<and> ((\<forall>p \<in> set (take 3 (split CHR ''.'' (lstrip CHR ''v'' s))). py_int p \<noteq> None) \<longrightarrow>
        map Some (parse_version s)
          = map py_int (take 3 (split CHR ''.'' (lstrip CHR ''v'' s)))
        \<and> length (parse_version s) = min 3 (length (split CHR ''.'' (lstrip CHR ''v'' s))))
   \<and> ((\<exists>p \<in> set (take 3 (split CHR ''.'' (lstrip CHR ''v'' s))). py_int p = None) \<longrightarrow>
        parse_version s = [0, 0, 0])
   \<and> 1 \<le> length (parse_version s) \<and> length (parse_version s) \<le> 3
   \<and> parse_version '''' = [0, 0, 0]
   \<and> parse_version (''v'' @ str_nat a @ ''.'' @ str_nat b @ ''.'' @ str_nat c)
       = [int a, int b, int c]"
proof -
  define parts where "parts = split CHR ''.'' (lstrip CHR ''v'' s)"
  have len: "1 \<le> length parts"
    using split_not_Nil [of "CHR ''.''" "lstrip CHR ''v'' s"]
    by (cases parts) (auto simp: parts_def)
  have good: "map Some (parse_version s) = map py_int (take 3 parts)
              \<and> length (parse_version s) = min 3 (length parts)"
    if "\<forall>p \<in> set (take 3 parts). py_int p \<noteq> None"
  proof -
    from that have "those_ints (take 3 parts) \<noteq> None"
      by (simp add: those_ints_None)
    then obtain ks where ks: "those_ints (take 3 parts) = Some ks" by auto
    then have pv: "parse_version s = ks"
      by (simp add: parse_version_def parts_def)
    have m: "map py_int (take 3 parts) = map Some ks"
      using ks by (rule those_ints_Some)
    then have "length (map py_int (take 3 parts)) = length (map Some ks)" by simp
    then have "length ks = min 3 (length parts)" by (simp add: min.commute)
    with m pv show ?thesis by simp
  qed
  have bad: "parse_version s = [0, 0, 0]"
    if "\<exists>p \<in> set (take 3 parts). py_int p = None"
  proof -
    from that have "those_ints (take 3 parts) = None"
      by (simp add: those_ints_None)
    then show ?thesis by (simp add: parse_version_def parts_def)
  qed
  have bounds: "1 \<le> length (parse_version s) \<and> length (parse_version s) \<le> 3"
  proof (cases "\<forall>p \<in> set (take 3 parts). py_int p \<noteq> None")
    case True
    from good [OF True] len show ?thesis by simp
  next
    case False
    then have "\<exists>p \<in> set (take 3 parts). py_int p = None" by simp
    then have "parse_version s = [0, 0, 0]" by (rule bad)
    then show ?thesis by simp
  qed
  have empty: "parse_version '''' = [0, 0, 0]"
    by code_simp
  show ?thesis
    using len good bad bounds empty parse_version_canonical [of a b c]
    unfolding parts_def by blast
qed

theorem parse_version_tuple_witness:
  "map py_int (take 3 (split CHR ''.'' (lstrip CHR ''v'' ''v1.2''))) = [Some 1, Some 2]
   \<and> (\<exists>p \<in> set (take 3 (split CHR ''.'' (lstrip CHR ''v'' ''v1.x.3''))). py_int p = None)
   \<and> map Some (parse_version ''v1.2'') = [Some 1, Some 2]
   \<and> length (parse_version ''v1.2'') = 2
   \<and> parse_version ''v1.x.3'' = [0, 0, 0]"
proof -
  have p1: "take 3 (split CHR ''.'' (lstrip CHR ''v'' ''v1.2'')) = [''1'', ''2'']"
    by code_simp
  have i1: "py_int ''1'' = Some 1" by code_simp
  have i2: "py_int ''2'' = Some 2" by code_simp
  have p2: "take 3 (split CHR ''.'' (lstrip CHR ''v'' ''v1.x.3'')) = [''1'', ''x'', ''3'']"
    by code_simp
  have ix: "py_int ''x'' = None" by code_simp
  have l: "length (split CHR ''.'' (lstrip CHR ''v'' ''v1.2'')) = 2" by code_simp
  have a: "\<forall>p \<in> set (take 3 (split CHR ''.'' (lstrip CHR ''v'' ''v1.2''))). py_int p \<noteq> None"
    unfolding p1 by (simp add: i1 i2)
  have a': "map py_int (take 3 (split CHR ''.'' (lstrip CHR ''v'' ''v1.2''))) = [Some 1, Some 2]"
    unfolding p1 by (simp add: i1 i2)
  have b: "\<exists>p \<in> set (take 3 (split CHR ''.'' (lstrip CHR ''v'' ''v1.x.3''))). py_int p = None"
    unfolding p2 by (simp add: ix)
  from a parse_version_tuple [of "''v1.2''" 0 0 0]
  have c: "map Some (parse_version ''v1.2'') = [Some 1, Some 2]
           \<and> length (parse_version ''v1.2'') = 2"
    unfolding p1 l by (simp add: i1 i2)
  from b parse_version_tuple [of "''v1.x.3''" 0 0 0]
  have d: "parse_version ''v1.x.3'' = [0, 0, 0]" by blast
  from a' b c d show ?thesis by blast
qed

text \<open>
  The claim as the specification words it fails where a version has fewer than three
  parts: \<open>v1.2\<close> gives a tuple of two integers, not three and not \<open>(0, 0, 0)\<close>. And more
  than one leading \<open>v\<close> is stripped.
\<close>

theorem parse_version_short_tuple:
  "parse_version ''v1.2'' = [1, 2]
   \<and> length (parse_version ''v1.2'') \<noteq> 3
   \<and> parse_version ''v1.2'' \<noteq> [0, 0, 0]
   \<and> parse_version ''vv1.2.3'' = [1, 2, 3]"
  by code_simp

section \<open>Properties of the sitemap builder\<close>

subsection \<open>Strings\<close>




lemma join_split: "join [c] (split c s) = s"
proof (induction s)
  case Nil
  show ?case by simp
next
  case (Cons x xs)
  obtain p ps where pps: "split c xs = p # ps"
    using split_not_Nil [of c xs] by (cases "split c xs") auto
  with Cons show ?case
    by (cases ps) auto
qed

lemma replace_same: "replace c c s = s"
  by (simp add: replace_def map_idI)

lemma join_snoc_suffix: "suffix f (join sep (ps @ [f]))"
proof (induction sep ps rule: join.induct)
  case (1 sep)
  show ?case by simp
next
  case (2 sep p)
  show ?case by (simp add: suffix_def)
next
  case (3 sep p q ps)
  then have "suffix f (join sep (q # ps @ [f]))" by simp
  then show ?case
    by (metis append_Cons join.simps(3) suffix_append suffix_appendI)
qed

lemma length_rstrip: "length (rstrip c s) \<le> length s"
proof -
  have "length (dropWhile (\<lambda>x. x = c) (rev s)) \<le> length (rev s)"
    by (rule length_dropWhile_le)
  then show ?thesis by (simp add: rstrip_def)
qed

lemma file_url_joined: "file_url base_url root file = base_url @ join ''/'' (root @ [file])"
proof -
  have "join ''/'' (split CHR ''/'' (join ''/'' (root @ [file]))) = join ''/'' (root @ [file])"
    by (rule join_split)
  then show ?thesis
    by (simp add: file_url_def relpath_def os_sep_def replace_same Let_def)
qed

subsection \<open>The base URL\<close>

text \<open>
  Claim C8, as the code has it. The normalized base URL is the base URL itself or the base
  URL with one slash appended, and it ends in a slash. It ends in two slashes exactly when
  the base URL given does: a single slash is the end of every other base URL. A base URL
  that ends in a slash, or in several, is left as it is; one slash is appended to any
  other.
\<close>

theorem normalized_base_url_slash:
  "endswith (normalize_base_url base_url) ''/''
   \<and> (normalize_base_url base_url = base_url \<or> normalize_base_url base_url = base_url @ ''/'')
   \<and> (endswith (normalize_base_url base_url) ''//'' = endswith base_url ''//'')
   \<and> (endswith base_url ''/'' \<longrightarrow> normalize_base_url base_url = base_url)
   \<and> (\<not> endswith base_url ''/'' \<longrightarrow> normalize_base_url base_url = base_url @ ''/'')"
proof -
  have a: "endswith (normalize_base_url base_url) ''/''"
    by (simp add: normalize_base_url_def endswith_def)
  have b: "endswith (base_url @ ''/'') ''//'' = endswith base_url ''//''"
    if "\<not> endswith base_url ''/''"
  proof -
    have "\<not> suffix ''/'' base_url" using that by (simp add: endswith_def)
    moreover have "suffix ''//'' (base_url @ ''/'') = suffix ''/'' base_url"
      using snoc_suffix_snoc [of "''/''" "CHR ''/''" base_url "CHR ''/''"]
      by simp
    moreover have "suffix ''//'' base_url \<Longrightarrow> suffix ''/'' base_url"
      by (auto simp: suffix_def)
    ultimately show ?thesis by (auto simp: endswith_def)
  qed
  show ?thesis
    using a b by (auto simp: normalize_base_url_def)
qed

theorem normalized_base_url_slash_witness:
  "endswith ''https://example.org/'' ''/''
   \<and> normalize_base_url ''https://example.org/'' = ''https://example.org/''
   \<and> \<not> endswith ''https://example.org'' ''/''
   \<and> normalize_base_url ''https://example.org'' = ''https://example.org/''"
proof -
  have a: "endswith ''https://example.org/'' ''/''"
    by (simp add: endswith_def suffix_to_prefix)
  have b: "\<not> endswith ''https://example.org'' ''/''"
    by (simp add: endswith_def suffix_to_prefix)
  from a normalized_base_url_slash [of "''https://example.org/''"]
  have c: "normalize_base_url ''https://example.org/'' = ''https://example.org/''"
    by blast
  from b normalized_base_url_slash [of "''https://example.org''"]
  have d: "normalize_base_url ''https://example.org'' = ''https://example.org/''"
    by simp
  from a b c d show ?thesis by blast
qed

text \<open>The claim as the specification words it fails for a base URL that ends in two
  slashes: it is left as it is.\<close>

theorem normalized_base_url_two_slashes:
  "normalize_base_url ''https://example.org//'' = ''https://example.org//''
   \<and> endswith (normalize_base_url ''https://example.org//'') ''//''"
  by (simp add: normalize_base_url_def endswith_def suffix_to_prefix)

subsection \<open>The priority\<close>





subsection \<open>The files of the tree and the entries\<close>

lemma concat_map_concat:
  "concat (map f (concat xss)) = concat (map (\<lambda>xs. concat (map f xs)) xss)"
  by (induction xss) auto

lemma walked_files_unfold:
  "walked_files root entries =
     map (\<lambda>e. root @ [fst e]) (filter (\<lambda>e. \<not> is_dir (snd e)) entries)
     @ concat (map (\<lambda>e. case snd e of Dir sub \<Rightarrow> walked_files (root @ [fst e]) sub
                                     | File \<Rightarrow> []) entries)"
proof -
  have "concat (map (\<lambda>(r, dirs, files). map (\<lambda>f. r @ [f]) files)
           (case snd e of Dir sub \<Rightarrow> walk (root @ [fst e]) sub | File \<Rightarrow> []))
        = (case snd e of Dir sub \<Rightarrow> walked_files (root @ [fst e]) sub | File \<Rightarrow> [])" for e
    by (cases "snd e") (simp_all add: walked_files_def)
  then show ?thesis
    by (simp add: walked_files_def walk.simps [of root entries] concat_map_concat
        comp_def)
qed

lemma mset_walked_files:
  "mset (walked_files root entries) = mset (map (\<lambda>p. root @ p) (files_of entries))"
proof (induction root entries rule: walk.induct)
  case (1 root entries)
  have step: "mset (map (\<lambda>e. root @ [fst e]) (filter (\<lambda>e. \<not> is_dir (snd e)) es))
        + mset (concat (map (\<lambda>e. case snd e of Dir sub \<Rightarrow> walked_files (root @ [fst e]) sub
                                     | File \<Rightarrow> []) es))
        = mset (map (\<lambda>p. root @ p)
            (concat (map (\<lambda>e. case snd e of File \<Rightarrow> [[fst e]]
                                   | Dir sub \<Rightarrow> map (\<lambda>p. fst e # p) (files_of sub)) es)))"
    if "set es \<subseteq> set entries" for es
    using that
  proof (induction es)
    case Nil
    show ?case by simp
  next
    case (Cons e es)
    then have ih: "mset (map (\<lambda>e. root @ [fst e]) (filter (\<lambda>e. \<not> is_dir (snd e)) es))
        + mset (concat (map (\<lambda>e. case snd e of Dir sub \<Rightarrow> walked_files (root @ [fst e]) sub
                                     | File \<Rightarrow> []) es))
        = mset (map (\<lambda>p. root @ p)
            (concat (map (\<lambda>e. case snd e of File \<Rightarrow> [[fst e]]
                                   | Dir sub \<Rightarrow> map (\<lambda>p. fst e # p) (files_of sub)) es)))"
      by simp
    from Cons.prems have mem: "e \<in> set entries" by simp
    show ?case
    proof (cases "snd e")
      case File
      with ih show ?thesis by simp
    next
      case (Dir sub)
      have "mset (walked_files (root @ [fst e]) sub)
            = mset (map (\<lambda>p. (root @ [fst e]) @ p) (files_of sub))"
        using mem Dir by (rule "1.IH")
      with Dir ih show ?thesis by (simp add: comp_def)
    qed
  qed
  have "mset (walked_files root entries)
        = mset (map (\<lambda>e. root @ [fst e]) (filter (\<lambda>e. \<not> is_dir (snd e)) entries))
          + mset (concat (map (\<lambda>e. case snd e of Dir sub \<Rightarrow> walked_files (root @ [fst e]) sub
                                     | File \<Rightarrow> []) entries))"
    by (subst walked_files_unfold) simp
  also have "\<dots> = mset (map (\<lambda>p. root @ p) (files_of entries))"
    using step [of entries] by (simp add: files_of.simps [of entries])
  finally show ?case .
qed

lemma collect_urls_walked:
  "collect_urls base_url entries
   = map (url_of base_url) (filter (\<lambda>p. wanted (last p)) (walked_files [] entries))"
proof -
  have "concat (map (\<lambda>(root, dirs, files). map (file_url base_url root) (filter wanted files)) ws)
        = map (url_of base_url)
            (filter (\<lambda>p. wanted (last p))
               (concat (map (\<lambda>(r, dirs, files). map (\<lambda>f. r @ [f]) files) ws)))" for ws
  proof (induction ws)
    case Nil
    show ?case by simp
  next
    case (Cons w ws)
    obtain r ds fs where w: "w = (r, ds, fs)" by (cases w) auto
    have "map (file_url base_url r) (filter wanted fs)
          = map (url_of base_url) (filter (\<lambda>p. wanted (last p)) (map (\<lambda>f. r @ [f]) fs))"
      by (simp add: filter_map comp_def file_url_joined url_of_def)
    with Cons show ?case by (simp add: w)
  qed
  then show ?thesis by (simp add: collect_urls_def walked_files_def)
qed

lemma mset_collect_urls:
  "mset (collect_urls base_url entries)
   = mset (map (url_of base_url) (filter (\<lambda>p. wanted (last p)) (files_of entries)))"
proof -
  have "mset (walked_files [] entries) = mset (files_of entries)"
    using mset_walked_files [of "[]" entries] by simp
  then have "mset (filter (\<lambda>p. wanted (last p)) (walked_files [] entries))
             = mset (filter (\<lambda>p. wanted (last p)) (files_of entries))"
    by (simp only: mset_filter)
  then have "mset (map (url_of base_url) (filter (\<lambda>p. wanted (last p)) (walked_files [] entries)))
             = mset (map (url_of base_url) (filter (\<lambda>p. wanted (last p)) (files_of entries)))"
    by (simp only: mset_map)
  then show ?thesis by (simp only: collect_urls_walked)
qed

lemma split_join:
  assumes "ps \<noteq> []" and "\<forall>p \<in> set ps. c \<notin> set p"
  shows "split c (join [c] ps) = ps"
  using assms
proof (induction "[c]" ps rule: join.induct)
  case 1
  then show ?case by simp
next
  case (2 p)
  then show ?case by (simp add: split_no_sep)
next
  case (3 p q ps)
  then have "split c (join [c] (q # ps)) = q # ps" by simp
  moreover have "c \<notin> set p" using "3.prems" by simp
  ultimately show ?case
    using split_append_sep [of c p "join [c] (q # ps)"] by simp
qed

lemma files_of_Nil: "files_of [] = []"
  by (simp add: files_of.simps [of "[]"])

lemma files_of_Cons:
  "files_of (e # es)
   = (case snd e of File \<Rightarrow> [[fst e]] | Dir sub \<Rightarrow> map (\<lambda>p. fst e # p) (files_of sub))
     @ files_of es"
  by (simp add: files_of.simps [of "e # es"] files_of.simps [of es])

lemma wf_tree_Cons:
  "wf_tree (e # es) \<longleftrightarrow>
     fst e \<notin> fst ` set es \<and> CHR ''/'' \<notin> set (fst e)
     \<and> (case snd e of File \<Rightarrow> True | Dir sub \<Rightarrow> wf_tree sub) \<and> wf_tree es"
  by (auto simp: wf_tree.simps [of "e # es"] wf_tree.simps [of es])

lemma files_of_heads: "p \<in> set (files_of es) \<Longrightarrow> p \<noteq> [] \<and> hd p \<in> fst ` set es"
proof (induction es)
  case Nil
  then show ?case by (simp add: files_of_Nil)
next
  case (Cons e es)
  then show ?case
    by (cases "snd e") (auto simp: files_of_Cons)
qed

lemma files_of_wf:
  "wf_tree es \<Longrightarrow>
     distinct (files_of es) \<and> (\<forall>p \<in> set (files_of es). \<forall>n \<in> set p. CHR ''/'' \<notin> set n)"
proof (induction es rule: wf_tree.induct)
  case (1 entries)
  have "distinct (files_of es) \<and> (\<forall>p \<in> set (files_of es). \<forall>n \<in> set p. CHR ''/'' \<notin> set n)"
    if "set es \<subseteq> set entries" "wf_tree es" for es
    using that
  proof (induction es)
    case Nil
    show ?case by (simp add: files_of_Nil)
  next
    case (Cons e es)
    from Cons.prems(2) have new: "fst e \<notin> fst ` set es" and name: "CHR ''/'' \<notin> set (fst e)"
      and sub: "case snd e of File \<Rightarrow> True | Dir sub \<Rightarrow> wf_tree sub" and rest: "wf_tree es"
      by (simp_all add: wf_tree_Cons)
    from Cons.prems(1) have mem: "e \<in> set entries" and incl: "set es \<subseteq> set entries"
      by simp_all
    have ih: "distinct (files_of es)
              \<and> (\<forall>p \<in> set (files_of es). \<forall>n \<in> set p. CHR ''/'' \<notin> set n)"
      using incl rest by (rule Cons.IH)
    have other: "hd p \<noteq> fst e" if "p \<in> set (files_of es)" for p
    proof
      assume "hd p = fst e"
      moreover have "hd p \<in> fst ` set es"
        using files_of_heads [OF that] by simp
      ultimately show False using new by simp
    qed
    show ?case
    proof (cases "snd e")
      case File
      have "[fst e] \<notin> set (files_of es)"
        using other [of "[fst e]"] by auto
      with File ih name show ?thesis by (simp add: files_of_Cons)
    next
      case (Dir s)
      with sub have "wf_tree s" by simp
      with mem Dir
      have below: "distinct (files_of s)
                   \<and> (\<forall>p \<in> set (files_of s). \<forall>n \<in> set p. CHR ''/'' \<notin> set n)"
        by (intro "1.IH") simp_all
      have d: "distinct (map (\<lambda>p. fst e # p) (files_of s))"
        using below by (simp add: distinct_map inj_on_def)
      have "fst e # q \<notin> set (files_of es)" for q
        using other [of "fst e # q"] by auto
      then have disj: "set (map (\<lambda>p. fst e # p) (files_of s)) \<inter> set (files_of es) = {}"
        by auto
      from Dir ih name below d disj show ?thesis
        by (auto simp: files_of_Cons)
    qed
  qed
  from this [of entries] "1.prems" show ?case by simp
qed

lemma url_of_inj:
  assumes "url_of base_url p = url_of base_url q"
    and "p \<noteq> []" and "q \<noteq> []"
    and "\<forall>n \<in> set p. CHR ''/'' \<notin> set n" and "\<forall>n \<in> set q. CHR ''/'' \<notin> set n"
  shows "p = q"
proof -
  from assms(1) have "join ''/'' p = join ''/'' q" by (simp add: url_of_def)
  then have "split CHR ''/'' (join ''/'' p) = split CHR ''/'' (join ''/'' q)" by simp
  with assms(2-5) show ?thesis by (simp add: split_join)
qed

lemma url_of_inj_on:
  assumes "wf_tree entries"
  shows "inj_on (url_of base_url) (set (files_of entries))"
proof (rule inj_onI)
  fix p q
  assume p: "p \<in> set (files_of entries)" and q: "q \<in> set (files_of entries)"
    and eq: "url_of base_url p = url_of base_url q"
  from files_of_wf [OF assms] p q
  have "\<forall>n \<in> set p. CHR ''/'' \<notin> set n" "\<forall>n \<in> set q. CHR ''/'' \<notin> set n" by auto
  moreover from files_of_heads p q have "p \<noteq> []" "q \<noteq> []" by auto
  ultimately show "p = q" using eq by (intro url_of_inj [of base_url p q]) simp_all
qed

lemma excluded_not_wanted: "name \<in> set excluded_files \<Longrightarrow> \<not> wanted name"
  by (simp add: wanted_def)

lemma collected_urls_once:
  assumes "wf_tree entries" and "p \<in> set (files_of entries)"
  shows "(wanted (last p) \<longrightarrow>
            count (mset (sort (collect_urls base_url entries))) (url_of base_url p) = 1)
       \<and> (\<not> wanted (last p) \<longrightarrow>
            url_of base_url p \<notin> set (sort (collect_urls base_url entries)))
       \<and> (last p \<in> set excluded_files \<longrightarrow>
            url_of base_url p \<notin> set (sort (collect_urls base_url entries)))
       \<and> length (sort (collect_urls base_url entries))
           = length (filter (\<lambda>p. wanted (last p)) (files_of entries))"
proof -
  define good where "good = filter (\<lambda>p. wanted (last p)) (files_of entries)"
  have m: "mset (sort (collect_urls base_url entries)) = mset (map (url_of base_url) good)"
    by (simp add: mset_collect_urls good_def)
  have inj: "inj_on (url_of base_url) (set (files_of entries))"
    using assms(1) by (rule url_of_inj_on)
  have sub: "set good \<subseteq> set (files_of entries)" by (auto simp: good_def)
  have "distinct good"
    using files_of_wf [OF assms(1)] by (simp add: good_def)
  then have dist: "distinct (map (url_of base_url) good)"
    using inj sub by (simp add: distinct_map inj_on_subset)
  have in_iff: "url_of base_url p \<in> set (map (url_of base_url) good) \<longleftrightarrow> wanted (last p)"
  proof
    assume "url_of base_url p \<in> set (map (url_of base_url) good)"
    then obtain q where q: "q \<in> set good" and eq: "url_of base_url p = url_of base_url q"
      by auto
    from q sub have "q \<in> set (files_of entries)" by auto
    with inj assms(2) eq have "p = q" by (auto dest: inj_onD)
    with q show "wanted (last p)" by (simp add: good_def)
  next
    assume "wanted (last p)"
    with assms(2) have "p \<in> set good" by (simp add: good_def)
    then show "url_of base_url p \<in> set (map (url_of base_url) good)" by simp
  qed
  have cnt: "count (mset (sort (collect_urls base_url entries))) (url_of base_url p)
             = (if wanted (last p) then 1 else 0)"
    using dist in_iff by (simp only: m distinct_count_atmost_1)
  have set_eq: "set (sort (collect_urls base_url entries)) = set (map (url_of base_url) good)"
    using m by (rule mset_eq_setD)
  have len: "length (sort (collect_urls base_url entries)) = length good"
    using m by (metis length_map size_mset)
  show ?thesis
    using cnt set_eq in_iff len excluded_not_wanted [of "last p"]
    by (auto simp: good_def)
qed

subsection \<open>The written document\<close>

lemma read_locs_skip: "CHR ''<'' \<notin> set t \<Longrightarrow> read_locs (t @ r) = read_locs r"
  by (induction t) auto

lemma read_locs_loc:
  assumes "CHR ''<'' \<notin> set e"
  shows "read_locs (''<loc>'' @ e @ CHR ''<'' # r) = e # read_locs (CHR ''<'' # r)"
proof -
  have tw: "takeWhile (\<lambda>x. x \<noteq> CHR ''<'') (e @ CHR ''<'' # r) = e"
    using assms by (auto simp: takeWhile_tail)
  have "read_locs (''loc>'' @ e @ CHR ''<'' # r) = read_locs (CHR ''<'' # r)"
    using read_locs_skip [of "''loc>'' @ e" "CHR ''<'' # r"] assms by simp
  then show ?thesis by (simp add: tw)
qed

lemma escape_char_no_lt: "CHR ''<'' \<notin> set (escape_char c)"
  by simp

lemma html_escape_no_lt: "CHR ''<'' \<notin> set (html_escape s)"
  by (induction s) (simp_all add: html_escape_def)

lemma priority_no_lt: "CHR ''<'' \<notin> set (priority url base_url)"
  by (simp add: priority_def)

lemma read_locs_url_element:
  assumes "CHR ''<'' \<notin> set today"
  shows "read_locs (url_element today base_url url @ r) = html_escape url # read_locs r"
proof -
  define A where "A = ''  <url>'' @ [CHR 0x0A] @ ''    ''"
  define B where "B = ''/loc>'' @ [CHR 0x0A] @ ''    <lastmod>''"
  define C where "C = ''</lastmod>'' @ [CHR 0x0A] @ ''    <changefreq>weekly</changefreq>''
                        @ [CHR 0x0A] @ ''    <priority>''"
  define D where "D = ''</priority>'' @ [CHR 0x0A] @ ''  </url>'' @ [CHR 0x0A]"
  have a: "read_locs (A @ s) = read_locs s" for s
    by (simp add: A_def)
  have b: "read_locs (CHR ''<'' # B @ s) = read_locs s" for s
    by (simp add: B_def)
  have c: "read_locs (C @ s) = read_locs s" for s
    by (simp add: C_def)
  have d: "read_locs (D @ s) = read_locs s" for s
    by (simp add: D_def)
  have shape: "url_element today base_url url @ r
        = A @ ''<loc>'' @ html_escape url @ CHR ''<'' # B @ today @ C
            @ priority url base_url @ D @ r"
    by (simp add: url_element_def A_def B_def C_def D_def)
  have "read_locs (A @ ''<loc>'' @ html_escape url @ CHR ''<'' # B @ today @ C
            @ priority url base_url @ D @ r)
        = read_locs (''<loc>'' @ html_escape url @ CHR ''<'' # B @ today @ C
            @ priority url base_url @ D @ r)"
    by (rule a)
  also have "\<dots> = html_escape url # read_locs (CHR ''<'' # B @ today @ C
            @ priority url base_url @ D @ r)"
    by (rule read_locs_loc) (rule html_escape_no_lt)
  also have "read_locs (CHR ''<'' # B @ today @ C @ priority url base_url @ D @ r)
             = read_locs (today @ C @ priority url base_url @ D @ r)"
    by (rule b)
  also have "read_locs (today @ C @ priority url base_url @ D @ r)
             = read_locs (C @ priority url base_url @ D @ r)"
    using assms by (rule read_locs_skip)
  also have "read_locs (C @ priority url base_url @ D @ r)
             = read_locs (priority url base_url @ D @ r)"
    by (rule c)
  also have "read_locs (priority url base_url @ D @ r) = read_locs (D @ r)"
    using priority_no_lt by (rule read_locs_skip)
  also have "read_locs (D @ r) = read_locs r"
    by (rule d)
  finally show ?thesis by (simp only: shape)
qed

lemma read_locs_elements:
  assumes "CHR ''<'' \<notin> set today"
  shows "read_locs (concat (map (url_element today base_url) us) @ r)
         = map html_escape us @ read_locs r"
proof (induction us)
  case Nil
  show ?case by simp
next
  case (Cons u us)
  have "read_locs (url_element today base_url u
          @ (concat (map (url_element today base_url) us) @ r))
        = html_escape u # read_locs (concat (map (url_element today base_url) us) @ r)"
    using assms by (rule read_locs_url_element)
  with Cons show ?case by simp
qed

lemma read_locs_sitemap_content:
  assumes "CHR ''<'' \<notin> set today"
  shows "read_locs (sitemap_content today base_url urls) = map html_escape (sort urls)"
proof -
  define H where "H = ''<?xml version='' @ [CHR 0x22] @ ''1.0'' @ [CHR 0x22] @ '' encoding=''
             @ [CHR 0x22] @ ''UTF-8'' @ [CHR 0x22] @ ''?>'' @ [CHR 0x0A]
             @ ''<urlset xmlns='' @ [CHR 0x22]
             @ ''http://www.sitemaps.org/schemas/sitemap/0.9''
             @ [CHR 0x22] @ ''>'' @ [CHR 0x0A]"
  define F where "F = ''</urlset>'' @ [CHR 0x0A]"
  have h: "read_locs (H @ s) = read_locs s" for s
    by (simp add: H_def)
  have f: "read_locs F = []"
    by (simp add: F_def)
  have shape: "sitemap_content today base_url urls
               = H @ concat (map (url_element today base_url) (sort urls)) @ F"
    by (simp add: sitemap_content_def H_def F_def)
  have "read_locs (H @ concat (map (url_element today base_url) (sort urls)) @ F)
        = read_locs (concat (map (url_element today base_url) (sort urls)) @ F)"
    by (rule h)
  also have "\<dots> = map html_escape (sort urls) @ read_locs F"
    using assms by (rule read_locs_elements)
  finally show ?thesis by (simp only: shape f append_Nil2)
qed

lemma escape_char_append_eq:
  "escape_char c @ x = escape_char d @ y \<Longrightarrow> c = d \<and> x = y"
  by (auto split: if_splits)

lemma html_escape_inj: "html_escape s = html_escape t \<Longrightarrow> s = t"
proof (induction s arbitrary: t)
  case Nil
  then show ?case
    by (cases t) (auto simp: html_escape_def split: if_splits)
next
  case (Cons c s)
  show ?case
  proof (cases t)
    case Nil
    with Cons.prems show ?thesis
      by (auto simp: html_escape_def split: if_splits)
  next
    case (Cons d t')
    with Cons.prems
    have "escape_char c @ html_escape s = escape_char d @ html_escape t'"
      by (simp add: html_escape_def)
    then have "c = d \<and> html_escape s = html_escape t'"
      by (rule escape_char_append_eq)
    with Cons.IH [of t'] Cons show ?thesis by simp
  qed
qed

lemma count_map_html_escape:
  "count (mset (map html_escape us)) (html_escape u) = count (mset us) u"
  by (induction us) (auto dest: html_escape_inj)

lemma html_escape_in_map:
  "html_escape u \<in> set (map html_escape us) \<longleftrightarrow> u \<in> set us"
  by (auto dest: html_escape_inj)

text \<open>
  Claim C6. The builder is given a directory tree as a file system has it (no name holds
  a slash, the names of one directory differ), a date (which holds no \<open><\<close>) and an output
  file with a directory part. It writes one file, and in that document every file of the
  tree whose name ends in \<open>.html\<close> and is not excluded has exactly one \<open>loc\<close> element,
  holding its URL (escaped); the URL of any other file of the tree, a file of the
  exclusion set in particular, is in no \<open>loc\<close> element; and there are as many \<open>loc\<close>
  elements as there are such files.
\<close>

theorem html_files_listed_once:
  assumes "node_at sys start_dir = Some (Dir entries)"
    and "wf_tree entries"
    and "p \<in> set (files_of entries)"
    and "CHR ''<'' \<notin> set today"
    and "dirname output_file \<noteq> []"
  shows "\<exists>content.
           files_written (generate_sitemap sys today start_dir base_url output_file)
             = [(output_file, content)]
           \<and> (wanted (last p) \<longrightarrow>
                count (mset (read_locs content))
                  (html_escape (url_of (normalize_base_url base_url) p)) = 1)
           \<and> (\<not> wanted (last p) \<longrightarrow>
                html_escape (url_of (normalize_base_url base_url) p) \<notin> set (read_locs content))
           \<and> (last p \<in> set excluded_files \<longrightarrow>
                html_escape (url_of (normalize_base_url base_url) p) \<notin> set (read_locs content))
           \<and> length (read_locs content)
               = length (filter (\<lambda>q. wanted (last q)) (files_of entries))"
proof -
  define b where "b = normalize_base_url base_url"
  define us where "us = sort (collect_urls b entries)"
  define content where "content = sitemap_content today b (collect_urls b entries)"
  have w: "files_written (generate_sitemap sys today start_dir base_url output_file)
           = [(output_file, content)]"
    using assms(1,5) by (simp add: generate_sitemap_def Let_def content_def b_def)
  have r: "read_locs content = map html_escape us"
    unfolding content_def us_def using assms(4) by (rule read_locs_sitemap_content)
  note once = collected_urls_once [OF assms(2,3), of b, folded us_def]
  have one: "count (mset (read_locs content)) (html_escape (url_of b p)) = 1"
    if "wanted (last p)"
    using once that by (simp add: r count_map_html_escape del: mset_map)
  have none: "html_escape (url_of b p) \<notin> set (read_locs content)"
    if "\<not> wanted (last p)"
    using once that by (simp only: r html_escape_in_map) simp
  have excl: "html_escape (url_of b p) \<notin> set (read_locs content)"
    if "last p \<in> set excluded_files"
    using none excluded_not_wanted [OF that] by simp
  have len: "length (read_locs content)
             = length (filter (\<lambda>q. wanted (last q)) (files_of entries))"
    using once by (simp add: r)
  show ?thesis
    unfolding b_def [symmetric]
    using w one none excl len by blast
qed

theorem html_files_listed_once_witness:
  "node_at \<lparr>environ = (\<lambda>_. None), getcwd = ''/repo'', abspath = (\<lambda>p. ''/repo/'' @ p),
            lookup = (\<lambda>p. if p = ''book''
                           then Some (Dir [(''index.html'', File), (''404.html'', File),
                                  (''sub'', Dir [(''page.html'', File), (''print.html'', File)])])
                           else None)\<rparr> ''book''
     = Some (Dir [(''index.html'', File), (''404.html'', File),
                  (''sub'', Dir [(''page.html'', File), (''print.html'', File)])])
   \<and> wf_tree [(''index.html'', File), (''404.html'', File),
              (''sub'', Dir [(''page.html'', File), (''print.html'', File)])]
   \<and> [''sub'', ''page.html'']
       \<in> set (files_of [(''index.html'', File), (''404.html'', File),
            (''sub'', Dir [(''page.html'', File), (''print.html'', File)])])
   \<and> CHR ''<'' \<notin> set ''2024-01-01''
   \<and> dirname ''book/sitemap.xml'' \<noteq> []
   \<and> wanted ''page.html''
   \<and> ''404.html'' \<in> set excluded_files
   \<and> ''print.html'' \<in> set excluded_files
   \<and> (\<exists>content.
         files_written (generate_sitemap
            \<lparr>environ = (\<lambda>_. None), getcwd = ''/repo'', abspath = (\<lambda>p. ''/repo/'' @ p),
             lookup = (\<lambda>p. if p = ''book''
                           then Some (Dir [(''index.html'', File), (''404.html'', File),
                                  (''sub'', Dir [(''page.html'', File), (''print.html'', File)])])
                           else None)\<rparr>
            ''2024-01-01'' ''book'' ''https://h'' ''book/sitemap.xml'')
           = [(''book/sitemap.xml'', content)]
         \<and> count (mset (read_locs content)) ''https://h/sub/page.html'' = 1
         \<and> ''https://h/404.html'' \<notin> set (read_locs content)
         \<and> ''https://h/sub/print.html'' \<notin> set (read_locs content)
         \<and> length (read_locs content) = 2)"
proof -
  define t where "t = [(''index.html'', File), (''404.html'', File),
            (''sub'', Dir [(''page.html'', File), (''print.html'', File)])]"
  define S where "S = \<lparr>environ = (\<lambda>_. None), getcwd = ''/repo'',
      abspath = (\<lambda>p. ''/repo/'' @ p),
      lookup = (\<lambda>p. if p = ''book'' then Some (Dir t) else None)\<rparr>"
  define W where "W = files_written
      (generate_sitemap S ''2024-01-01'' ''book'' ''https://h'' ''book/sitemap.xml'')"
  have n: "node_at S ''book'' = Some (Dir t)"
    by (simp add: node_at_def S_def)
  have wf: "wf_tree t" unfolding t_def by code_simp
  have fs: "files_of t = [[''index.html''], [''404.html''], [''sub'', ''page.html''],
                          [''sub'', ''print.html'']]"
    unfolding t_def by code_simp
  have p1: "[''sub'', ''page.html''] \<in> set (files_of t)" by (simp add: fs)
  have p2: "[''404.html''] \<in> set (files_of t)" by (simp add: fs)
  have p3: "[''sub'', ''print.html''] \<in> set (files_of t)" by (simp add: fs)
  have day: "CHR ''<'' \<notin> set ''2024-01-01''" by simp
  have out: "dirname ''book/sitemap.xml'' \<noteq> []" by code_simp
  have w1: "wanted ''page.html''" by code_simp
  have x2: "''404.html'' \<in> set excluded_files" by code_simp
  have x3: "''print.html'' \<in> set excluded_files" by code_simp
  have u1: "html_escape (url_of (normalize_base_url ''https://h'') [''sub'', ''page.html''])
            = ''https://h/sub/page.html''"
    by code_simp
  have u2: "html_escape (url_of (normalize_base_url ''https://h'') [''404.html''])
            = ''https://h/404.html''"
    by code_simp
  have u3: "html_escape (url_of (normalize_base_url ''https://h'') [''sub'', ''print.html''])
            = ''https://h/sub/print.html''"
    by code_simp
  have two: "length (filter (\<lambda>q. wanted (last q)) (files_of t)) = 2"
    unfolding fs by code_simp
  from html_files_listed_once [OF n wf p1 day out, of "''https://h''"] w1
  obtain c1 where c1: "W = [(''book/sitemap.xml'', c1)]"
    and a: "count (mset (read_locs c1)) ''https://h/sub/page.html'' = 1"
    and l: "length (read_locs c1) = 2"
    unfolding W_def u1 two by auto
  from html_files_listed_once [OF n wf p2 day out, of "''https://h''"] x2
  obtain c2 where c2: "W = [(''book/sitemap.xml'', c2)]"
    and b: "''https://h/404.html'' \<notin> set (read_locs c2)"
    unfolding W_def u2 by auto
  from html_files_listed_once [OF n wf p3 day out, of "''https://h''"] x3
  obtain c3 where c3: "W = [(''book/sitemap.xml'', c3)]"
    and c: "''https://h/sub/print.html'' \<notin> set (read_locs c3)"
    unfolding W_def u3 by auto
  from c1 c2 c3 have "c2 = c1" "c3 = c1" by simp_all
  with a b c l c1
  have "\<exists>content. W = [(''book/sitemap.xml'', content)]
         \<and> count (mset (read_locs content)) ''https://h/sub/page.html'' = 1
         \<and> ''https://h/404.html'' \<notin> set (read_locs content)
         \<and> ''https://h/sub/print.html'' \<notin> set (read_locs content)
         \<and> length (read_locs content) = 2"
    by blast
  with n wf p1 day out w1 x2 x3 show ?thesis
    unfolding W_def S_def t_def by blast
qed

subsection \<open>The URLs of the entries\<close>

lemma collect_urls_member:
  assumes "u \<in> set (collect_urls base_url entries)"
  obtains root name where "wanted name" and "u = base_url @ join ''/'' (root @ [name])"
  using assms by (auto simp: collect_urls_def file_url_joined)

lemma wanted_html: "wanted file \<Longrightarrow> suffix ''.html'' file"
  by (simp add: wanted_def endswith_def)

text \<open>
  Claim C10. Every URL that the loop over the walk collects is the normalized base URL
  followed by a path that is not empty and ends in \<open>.html\<close>; so it is longer than the
  normalized base URL, and so it is not that URL stripped of its slashes: the third test of
  the rule for 1.0 is false for every entry.
\<close>

theorem entry_url_longer_than_base:
  assumes "u \<in> set (collect_urls (normalize_base_url base_url) entries)"
  shows "(\<exists>rel. u = normalize_base_url base_url @ rel \<and> rel \<noteq> [] \<and> endswith rel ''.html'')
       \<and> length (normalize_base_url base_url) < length u
       \<and> u \<noteq> rstrip CHR ''/'' (normalize_base_url base_url)"
proof -
  from assms obtain root name
    where w: "wanted name"
      and u: "u = normalize_base_url base_url @ join ''/'' (root @ [name])"
    by (rule collect_urls_member)
  define rel where "rel = join ''/'' (root @ [name])"
  have "suffix name rel"
    unfolding rel_def by (rule join_snoc_suffix)
  moreover have "suffix ''.html'' name"
    using w by (rule wanted_html)
  ultimately have html: "suffix ''.html'' rel"
    by (rule suffix_order.trans [rotated])
  then have ne: "rel \<noteq> []" by auto
  have longer: "length (normalize_base_url base_url) < length u"
    using ne by (simp add: u rel_def [symmetric])
  have "length (rstrip CHR ''/'' (normalize_base_url base_url))
        \<le> length (normalize_base_url base_url)"
    by (rule length_rstrip)
  with longer have "u \<noteq> rstrip CHR ''/'' (normalize_base_url base_url)" by auto
  with html ne longer show ?thesis
    by (auto simp: u rel_def [symmetric] endswith_def)
qed

theorem entry_url_longer_than_base_witness:
  "''https://h/sub/page.html''
     \<in> set (collect_urls (normalize_base_url ''https://h'')
              [(''index.html'', File), (''sub'', Dir [(''page.html'', File)])])
   \<and> length (normalize_base_url ''https://h'') < length ''https://h/sub/page.html''
   \<and> ''https://h/sub/page.html'' \<noteq> rstrip CHR ''/'' (normalize_base_url ''https://h'')"
proof -
  have a: "collect_urls (normalize_base_url ''https://h'')
              [(''index.html'', File), (''sub'', Dir [(''page.html'', File)])]
           = [''https://h/index.html'', ''https://h/sub/page.html'']"
    by code_simp
  have b: "''https://h/sub/page.html''
     \<in> set (collect_urls (normalize_base_url ''https://h'')
              [(''index.html'', File), (''sub'', Dir [(''page.html'', File)])])"
    unfolding a by simp
  from b entry_url_longer_than_base [OF b] show ?thesis by blast
qed

subsection \<open>The exit code\<close>

lemma rstrip_Nil_iff: "rstrip c s = [] \<longleftrightarrow> s = replicate (length s) c"
proof -
  have "rstrip c s = [] \<longleftrightarrow> (\<forall>x \<in> set s. x = c)"
    by (simp add: rstrip_def dropWhile_eq_Nil_conv)
  also have "\<dots> \<longleftrightarrow> s = replicate (length s) c"
    by (metis in_set_replicate replicate_length_same)
  finally show ?thesis .
qed

lemma dirname_after_slash:
  assumes "CHR ''/'' \<notin> set name"
  shows "dirname (d @ CHR ''/'' # name) \<noteq> []"
proof -
  have "dropWhile (\<lambda>c. c \<noteq> CHR ''/'') (rev name @ CHR ''/'' # rev d) = CHR ''/'' # rev d"
    using assms by (auto simp: dropWhile_append3)
  then have head: "rev (dropWhile (\<lambda>c. c \<noteq> CHR ''/'') (rev (d @ CHR ''/'' # name)))
                   = d @ ''/''"
    by simp
  show ?thesis
    unfolding dirname_def head Let_def
    by (simp add: rstrip_Nil_iff del: replicate_Suc)
qed

lemma dirname_path_join:
  assumes "d \<noteq> []" and "CHR ''/'' \<notin> set name"
  shows "dirname (path_join d name) \<noteq> []"
proof (cases "endswith d ''/''")
  case True
  then obtain d' where "d = d' @ ''/''" by (auto simp: endswith_def suffix_def)
  then have "path_join d name = d' @ CHR ''/'' # name"
    using True by (simp add: path_join_def)
  with assms(2) show ?thesis by (simp add: dirname_after_slash)
next
  case False
  with assms(1) have "path_join d name = d @ CHR ''/'' # name"
    by (simp add: path_join_def)
  with assms(2) show ?thesis by (simp add: dirname_after_slash)
qed

lemma isdir_not_empty: "isdir sys p \<Longrightarrow> p \<noteq> []"
  by (auto simp: isdir_def node_at_def)

lemma generate_sitemap_outcome:
  assumes "dirname output_file \<noteq> []"
  shows "exit_code (generate_sitemap sys today start_dir base_url output_file) = 0
   \<and> map fst (files_written (generate_sitemap sys today start_dir base_url output_file))
       = [output_file]"
  using assms by (simp add: generate_sitemap_def Let_def)

text \<open>
  Claim C9. When the directory of the book does not exist or is not a directory, the run
  prints the error line and, after the line that announces them, one line for each entry
  of the current directory, writes no file and ends with exit code 1. Otherwise it writes
  one file, the sitemap in that directory, and ends with exit code 0.
\<close>

theorem main_exit_code:
  "(\<not> isdir sys (book_output_directory sys) \<longrightarrow>
      exit_code (main sys today) = 1
      \<and> files_written (main sys today) = []
      \<and> error_line sys \<in> set (stdout (main sys today))
      \<and> ''Listing current directory contents:'' \<in> set (stdout (main sys today))
      \<and> (\<forall>item \<in> set (listdir sys ''.''). ''  - '' @ item \<in> set (stdout (main sys today))))
   \<and> (isdir sys (book_output_directory sys) \<longrightarrow>
      exit_code (main sys today) = 0
      \<and> map fst (files_written (main sys today))
          = [path_join (book_output_directory sys) ''sitemap.xml''])"
proof (intro conjI impI)
  assume no: "\<not> isdir sys (book_output_directory sys)"
  then have m: "main sys today =
        \<lparr>stdout = banner sys
           @ [error_line sys,
              ''Current PWD: '' @ getcwd sys,
              ''Listing current directory contents:'']
           @ map (\<lambda>item. ''  - '' @ item) (listdir sys ''.'')
           @ (if path_exists sys ''hkj-book'' then
                ''Listing hkj-book directory contents:''
                # map (\<lambda>item. ''  - hkj-book/'' @ item) (listdir sys ''hkj-book'')
              else []),
         files_written = [],
         exit_code = 1\<rparr>"
    by (simp add: main_def)
  show "exit_code (main sys today) = 1" by (simp add: m)
  show "files_written (main sys today) = []" by (simp add: m)
  show "error_line sys \<in> set (stdout (main sys today))" by (simp add: m)
  show "''Listing current directory contents:'' \<in> set (stdout (main sys today))"
    by (simp add: m)
  show "\<forall>item \<in> set (listdir sys ''.''). ''  - '' @ item \<in> set (stdout (main sys today))"
    by (simp add: m)
next
  assume yes: "isdir sys (book_output_directory sys)"
  then have m: "main sys today =
      (generate_sitemap sys today (book_output_directory sys) (site_base_url sys)
         (sitemap_output_path sys))
      \<lparr>stdout := banner sys
         @ stdout (generate_sitemap sys today (book_output_directory sys) (site_base_url sys)
                     (sitemap_output_path sys))\<rparr>"
    by (simp add: main_def Let_def)
  have "book_output_directory sys \<noteq> []"
    using yes by (rule isdir_not_empty)
  then have out: "dirname (sitemap_output_path sys) \<noteq> []"
    unfolding sitemap_output_path_def by (rule dirname_path_join) simp
  show "exit_code (main sys today) = 0"
    by (simp add: m generate_sitemap_outcome [OF out])
  show "map fst (files_written (main sys today))
          = [path_join (book_output_directory sys) ''sitemap.xml'']"
    using generate_sitemap_outcome [OF out, of sys today "book_output_directory sys"
        "site_base_url sys"]
    by (simp add: m sitemap_output_path_def)
qed

theorem main_exit_code_witness:
  "\<not> isdir \<lparr>environ = (\<lambda>_. None), getcwd = ''/repo'', abspath = (\<lambda>p. ''/repo/'' @ p),
             lookup = (\<lambda>p. if p = ''.'' then Some (Dir [(''README.md'', File)]) else None)\<rparr>
        ''hkj-book/book''
   \<and> exit_code (main \<lparr>environ = (\<lambda>_. None), getcwd = ''/repo'',
                      abspath = (\<lambda>p. ''/repo/'' @ p),
                      lookup = (\<lambda>p. if p = ''.'' then Some (Dir [(''README.md'', File)])
                                     else None)\<rparr> ''2024-01-01'') = 1
   \<and> files_written (main \<lparr>environ = (\<lambda>_. None), getcwd = ''/repo'',
                      abspath = (\<lambda>p. ''/repo/'' @ p),
                      lookup = (\<lambda>p. if p = ''.'' then Some (Dir [(''README.md'', File)])
                                     else None)\<rparr> ''2024-01-01'') = []
   \<and> isdir \<lparr>environ = (\<lambda>_. None), getcwd = ''/repo'', abspath = (\<lambda>p. ''/repo/'' @ p),
             lookup = (\<lambda>p. if p = ''hkj-book/book'' then Some (Dir [(''index.html'', File)])
                            else None)\<rparr>
        ''hkj-book/book''
   \<and> exit_code (main \<lparr>environ = (\<lambda>_. None), getcwd = ''/repo'',
                      abspath = (\<lambda>p. ''/repo/'' @ p),
                      lookup = (\<lambda>p. if p = ''hkj-book/book''
                                     then Some (Dir [(''index.html'', File)])
                                     else None)\<rparr> ''2024-01-01'') = 0
   \<and> map fst (files_written (main \<lparr>environ = (\<lambda>_. None), getcwd = ''/repo'',
                      abspath = (\<lambda>p. ''/repo/'' @ p),
                      lookup = (\<lambda>p. if p = ''hkj-book/book''
                                     then Some (Dir [(''index.html'', File)])
                                     else None)\<rparr> ''2024-01-01''))
       = [''hkj-book/book/sitemap.xml'']"
proof -
  define s1 where "s1 = \<lparr>environ = (\<lambda>_. None), getcwd = ''/repo'',
      abspath = (\<lambda>p. ''/repo/'' @ p),
      lookup = (\<lambda>p. if p = ''.'' then Some (Dir [(''README.md'', File)]) else None)\<rparr>"
  define s2 where "s2 = \<lparr>environ = (\<lambda>_. None), getcwd = ''/repo'',
      abspath = (\<lambda>p. ''/repo/'' @ p),
      lookup = (\<lambda>p. if p = ''hkj-book/book'' then Some (Dir [(''index.html'', File)])
                     else None)\<rparr>"
  have d1: "book_output_directory s1 = ''hkj-book/book''"
    by (simp add: book_output_directory_def s1_def)
  have d2: "book_output_directory s2 = ''hkj-book/book''"
    by (simp add: book_output_directory_def s2_def)
  have a: "\<not> isdir s1 ''hkj-book/book''"
    by (simp add: isdir_def node_at_def s1_def)
  have b: "isdir s2 ''hkj-book/book''"
    by (simp add: isdir_def node_at_def s2_def)
  have j: "path_join ''hkj-book/book'' ''sitemap.xml'' = ''hkj-book/book/sitemap.xml''"
    by (simp add: path_join_def endswith_def suffix_to_prefix)
  from a main_exit_code [of s1 "''2024-01-01''"]
  have c: "exit_code (main s1 ''2024-01-01'') = 1 \<and> files_written (main s1 ''2024-01-01'') = []"
    unfolding d1 by blast
  from b main_exit_code [of s2 "''2024-01-01''"]
  have d: "exit_code (main s2 ''2024-01-01'') = 0
           \<and> map fst (files_written (main s2 ''2024-01-01'')) = [''hkj-book/book/sitemap.xml'']"
    unfolding d2 j by blast
  from a b c d show ?thesis
    unfolding s1_def s2_def by blast
qed

end
